theory Spec2Isabelle
  imports Main "HOL-Library.Monad_Syntax"
begin

section \<open>Connect Four (connect-four.py)\<close>

subsection \<open>Data model\<close>

text \<open>
  A board cell holds \<open>None\<close>, \<open>"red"\<close> or \<open>"gold"\<close>: an optional colour. The board is a
  list of \<open>ROWS\<close> rows, each a list of \<open>COLS\<close> cells; row 0 is the top row. Row and
  column indices are Python integers, so they are \<open>int\<close> here (the scan of
  \<open>_check_winner\<close> steps to -1 and to \<open>ROWS\<close>/\<open>COLS\<close> before its bounds test stops it).
\<close>

datatype color = Red | Yellow

type_synonym cell = "color option"
type_synonym board = "cell list list"
type_synonym coord = "int \<times> int"

definition ROWS :: int where "ROWS = 6"
definition COLS :: int where "COLS = 7"
definition CELL :: int where "CELL = 90"

record connect_four =
  board :: board
  current_player :: color
  game_over :: bool
  win_coords :: "coord list"
  hover_col :: "int option"

text \<open>The two dialogs of the game, as the values \<open>_on_click\<close> emits.\<close>

datatype notice = ColumnFullNotice | WinNotice color | DrawNotice

text \<open>\<open>[[None for _ in range(COLS)] for _ in range(ROWS)]\<close>\<close>

definition empty_board :: board where
  "empty_board = replicate (nat ROWS) (replicate (nat COLS) None)"

text \<open>The game state of \<open>__init__\<close>.\<close>

definition init_game :: connect_four where
  "init_game = \<lparr>board = empty_board, current_player = Red, game_over = False,
                 win_coords = [], hover_col = None\<rparr>"

text \<open>
  Every board the program builds has \<open>ROWS\<close> rows of \<open>COLS\<close> cells; on such a board each
  index the code uses (always guarded by \<open>0 <= r < ROWS and 0 <= c < COLS\<close>, or taken from
  \<open>range\<close>) is in range, and no \<open>IndexError\<close> arises.
\<close>

definition wf_board :: "board \<Rightarrow> bool" where
  "wf_board b = (length b = nat ROWS \<and> list_all (\<lambda>row. length row = nat COLS) b)"

definition in_bounds :: "int \<Rightarrow> int \<Rightarrow> bool" where
  "in_bounds r c = (0 \<le> r \<and> r < ROWS \<and> 0 \<le> c \<and> c < COLS)"

text \<open>\<open>self.board[r][c]\<close>, and \<open>self.board[r][c] = v\<close>.\<close>

definition cell_at :: "board \<Rightarrow> int \<Rightarrow> int \<Rightarrow> cell" where
  "cell_at b r c = b ! nat r ! nat c"

definition set_cell :: "board \<Rightarrow> int \<Rightarrow> int \<Rightarrow> cell \<Rightarrow> board" where
  "set_cell b r c v = b[nat r := (b ! nat r)[nat c := v]]"

subsection \<open>Win detector: \<open>_check_winner\<close>\<close>

text \<open>The loop condition of both \<open>while\<close> loops of \<open>_check_winner\<close>.\<close>

definition matches :: "board \<Rightarrow> color \<Rightarrow> coord \<Rightarrow> bool" where
  "matches b color p =
     (case p of (r, c) \<Rightarrow>
        0 \<le> r \<and> r < ROWS \<and> 0 \<le> c \<and> c < COLS \<and> cell_at b r c = Some color)"

text \<open>
  The \<open>while\<close> loop: from \<open>(r, c)\<close>, append and step by \<open>(sr, sc)\<close> while the cell matches.
  The first loop of the source steps by \<open>(dr, dc)\<close>, the second by \<open>(-dr, -dc)\<close>
  (\<open>r -= dr; c -= dc\<close>). With a zero step on a matching cell the loop would not end, so
  the result is an option and \<open>None\<close> stands for a loop that does not return.
\<close>

partial_function (option) walk ::
  "board \<Rightarrow> color \<Rightarrow> int \<Rightarrow> int \<Rightarrow> int \<Rightarrow> int \<Rightarrow> coord list \<Rightarrow> coord list option" where
  "walk b color sr sc r c coords =
     (if matches b color (r, c)
      then walk b color sr sc (r + sr) (c + sc) (coords @ [(r, c)])
      else Some coords)"

declare walk.simps [code]

definition directions :: "(int \<times> int) list" where
  "directions = [(0, 1), (1, 0), (1, 1), (1, -1)]"

text \<open>The body of \<open>for dr, dc in directions\<close>, then the rest of the loop.\<close>

fun scan_directions ::
  "board \<Rightarrow> color \<Rightarrow> int \<Rightarrow> int \<Rightarrow> (int \<times> int) list \<Rightarrow> (color option \<times> coord list) option" where
  "scan_directions b color row col [] = Some (None, [])"
| "scan_directions b color row col ((dr, dc) # ds) =
     do {
       coords \<leftarrow> walk b color dr dc (row + dr) (col + dc) [(row, col)];
       coords \<leftarrow> walk b color (- dr) (- dc) (row - dr) (col - dc) coords;
       if length coords \<ge> 4 then Some (Some color, coords)
       else scan_directions b color row col ds
     }"

definition check_winner ::
  "connect_four \<Rightarrow> int \<Rightarrow> int \<Rightarrow> (color option \<times> coord list) option" where
  "check_winner s row col =
     scan_directions (board s) (current_player s) row col directions"

subsection \<open>Board state: the drop, the full test, the reset\<close>

text \<open>
  \<open>for row in range(ROWS - 1, -1, -1): if not self.board[row][col]: target_row = row; break\<close>
  over the rows still to visit; \<open>None\<close> is the \<open>target_row\<close> left at \<open>None\<close>.
\<close>

fun find_target_row :: "board \<Rightarrow> int \<Rightarrow> int list \<Rightarrow> int option" where
  "find_target_row b col [] = None"
| "find_target_row b col (row # rows) =
     (if cell_at b row col = None then Some row else find_target_row b col rows)"

text \<open>\<open>range(ROWS - 1, -1, -1)\<close>\<close>

definition rows_bottom_up :: "int list" where
  "rows_bottom_up = rev [0..ROWS - 1]"

datatype drop_error = ColumnFullError

text \<open>
  Lines 229 to 242 of \<open>_on_click\<close>: the search for the target row, the full-column exit,
  and the placement (the \<open>drop(column)\<close> of the specification). The result carries the new state and the row placed, which the caller
  hands to \<open>_check_winner\<close> together with the column.
\<close>

definition drop_disc :: "connect_four \<Rightarrow> int \<Rightarrow> drop_error + (connect_four \<times> int)" where
  "drop_disc s col =
     (case find_target_row (board s) col rows_bottom_up of
        None \<Rightarrow> Inl ColumnFullError
      | Some target_row \<Rightarrow>
          Inr (s\<lparr>board := set_cell (board s) target_row col (Some (current_player s))\<rparr>,
               target_row))"

text \<open>\<open>all(self.board[0][c] is not None for c in range(self.COLS))\<close>\<close>

definition is_board_full :: "connect_four \<Rightarrow> bool" where
  "is_board_full s = list_all (\<lambda>c. cell_at (board s) 0 c \<noteq> None) [0..COLS - 1]"

definition reset_game :: "connect_four \<Rightarrow> connect_four" where
  "reset_game s = s\<lparr>board := empty_board, current_player := Red, game_over := False,
                     win_coords := [], hover_col := None\<rparr>"

subsection \<open>Turn controller: the event handlers\<close>

text \<open>
  \<open>_on_click\<close> with \<open>x = event.x\<close>. The result is the state after the handler and the
  dialogs it showed; \<open>None\<close> is a handler that does not return (a \<open>walk\<close> that does not).
\<close>

definition on_click :: "connect_four \<Rightarrow> int \<Rightarrow> (connect_four \<times> notice list) option" where
  "on_click s x =
     (if game_over s then Some (s, [])
      else
        let col = x div CELL in
        if \<not> (0 \<le> col \<and> col < COLS) then Some (s, [])
        else
          case drop_disc s col of
            Inl ColumnFullError \<Rightarrow> Some (s, [ColumnFullNotice])
          | Inr (s1, target_row) \<Rightarrow>
              do {
                (winner, wc) \<leftarrow> check_winner s1 target_row col;
                case winner of
                  Some w \<Rightarrow> Some (s1\<lparr>game_over := True, win_coords := wc\<rparr>, [WinNotice w])
                | None \<Rightarrow>
                    if is_board_full s1 then Some (s1\<lparr>game_over := True\<rparr>, [DrawNotice])
                    else Some (s1\<lparr>current_player :=
                                     (if current_player s1 = Red then Yellow else Red)\<rparr>, [])
              })"

text \<open>\<open>_on_motion\<close> with \<open>x = event.x\<close>: it writes \<open>hover_col\<close> only.\<close>

definition on_motion :: "connect_four \<Rightarrow> int \<Rightarrow> connect_four" where
  "on_motion s x =
     (if game_over s then s\<lparr>hover_col := None\<rparr>
      else
        let col = x div CELL in
        if 0 \<le> col \<and> col < COLS then
          (if Some col \<noteq> hover_col s then s\<lparr>hover_col := Some col\<rparr> else s)
        else
          (if hover_col s \<noteq> None then s\<lparr>hover_col := None\<rparr> else s))"

text \<open>
  The inputs of the window: a click and a pointer motion at a pixel column, and the reset
  (the button and the \<open>r\<close> key both call \<open>reset_game\<close>).
\<close>

datatype event = Click int | Motion int | Reset

fun handle :: "connect_four \<Rightarrow> event \<Rightarrow> connect_four option" where
  "handle s (Click x) = map_option fst (on_click s x)"
| "handle s (Motion x) = Some (on_motion s x)"
| "handle s Reset = Some (reset_game s)"

fun run_events :: "connect_four \<Rightarrow> event list \<Rightarrow> connect_four option" where
  "run_events s [] = Some s"
| "run_events s (e # es) = do { s' \<leftarrow> handle s e; run_events s' es }"

section \<open>Connect Four: the win detector as the specification words it\<close>

text \<open>
  The cells met walking outward from \<open>(r, c)\<close> in steps of \<open>(sr, sc)\<close>, nearest first:
  \<open>(r + sr, c + sc)\<close>, \<open>(r + 2 sr, c + 2 sc)\<close>, and so on, \<open>n\<close> of them.
\<close>

fun outward :: "nat \<Rightarrow> int \<Rightarrow> int \<Rightarrow> int \<Rightarrow> int \<Rightarrow> coord list" where
  "outward 0 r c sr sc = []"
| "outward (Suc n) r c sr sc = (r + sr, c + sc) # outward n (r + sr) (c + sc) sr sc"

text \<open>
  The run of the player's cells from \<open>(row, col)\<close> in one direction: the outward cells
  while they equal the player. No run is longer than the board is wide or high, so
  \<open>max ROWS COLS\<close> outward cells are enough to look at.
\<close>

definition run_from :: "board \<Rightarrow> color \<Rightarrow> int \<Rightarrow> int \<Rightarrow> int \<Rightarrow> int \<Rightarrow> coord list" where
  "run_from b p row col sr sc =
     takeWhile (matches b p) (outward (nat (max ROWS COLS)) row col sr sc)"

text \<open>
  The coordinate list of a direction-pair: the origin cell, then the run in the positive
  direction, then the run in the negative direction.
\<close>

definition line_through :: "board \<Rightarrow> color \<Rightarrow> int \<Rightarrow> int \<Rightarrow> int \<times> int \<Rightarrow> coord list" where
  "line_through b p row col d =
     (case d of (dr, dc) \<Rightarrow>
        (row, col) # run_from b p row col dr dc @ run_from b p row col (- dr) (- dc))"

datatype win_result = NoWin | Won color "coord list"

text \<open>
  \<open>checkWin\<close> in the words of the specification: the first direction-pair, in the order
  horizontal, vertical, diagonal down-right, diagonal down-left, whose line has at least 4
  cells decides; with none, there is no win.
\<close>

definition checkWin_spec :: "board \<Rightarrow> int \<Rightarrow> int \<Rightarrow> color \<Rightarrow> win_result" where
  "checkWin_spec b row col p =
     (case find (\<lambda>d. 4 \<le> length (line_through b p row col d))
                [(0, 1), (1, 0), (1, 1), (1, -1)] of
        None \<Rightarrow> NoWin
      | Some d \<Rightarrow> Won p (line_through b p row col d))"

text \<open>The pair \<open>(winning_color, coords_list)\<close> of the source, read as a result.\<close>

definition result_of :: "color option \<times> coord list \<Rightarrow> win_result" where
  "result_of wr = (case wr of (None, cs) \<Rightarrow> NoWin | (Some p, cs) \<Rightarrow> Won p cs)"

text \<open>A position in play: red has four discs in column 3, and it is red's scan.\<close>

definition sample_board :: board where
  "sample_board =
     [[None, None, None, None, None, None, None],
      [None, None, None, None, None, None, None],
      [None, None, None, Some Red, None, None, None],
      [None, None, None, Some Red, Some Yellow, None, None],
      [None, None, Some Red, Some Red, Some Yellow, None, None],
      [None, Some Red, Some Yellow, Some Red, Some Yellow, None, None]]"

definition sample_game :: connect_four where
  "sample_game = \<lparr>board = sample_board, current_player = Red, game_over = False,
                   win_coords = [], hover_col = None\<rparr>"

section \<open>Connect Four: the properties the claims speak of\<close>

text \<open>Every row of the column holds a disc.\<close>

definition column_full :: "board \<Rightarrow> int \<Rightarrow> bool" where
  "column_full b col = list_all (\<lambda>r. cell_at b r col \<noteq> None) [0..ROWS - 1]"

text \<open>Every cell of the whole grid holds a disc; every cell of the whole grid is empty.\<close>

definition all_occupied :: "board \<Rightarrow> bool" where
  "all_occupied b = list_all (list_all (\<lambda>x. x \<noteq> None)) b"

definition all_empty :: "board \<Rightarrow> bool" where
  "all_empty b = list_all (list_all (\<lambda>x. x = None)) b"

text \<open>
  From board \<open>b\<close> to board \<open>b'\<close> each cell either keeps its value or goes from empty to a
  disc.
\<close>

definition cells_monotone :: "board \<Rightarrow> board \<Rightarrow> bool" where
  "cells_monotone b b' =
     list_all2 (list_all2 (\<lambda>x y. y = x \<or> (x = None \<and> y \<noteq> None))) b b'"

text \<open>
  The fill discipline of a column: under a disc there is a disc. Together with the shape
  of the board it is the invariant of the game.
\<close>

definition gravity :: "board \<Rightarrow> bool" where
  "gravity b =
     (\<forall>r c. in_bounds r c \<and> r + 1 < ROWS \<and> cell_at b r c \<noteq> None
        \<longrightarrow> cell_at b (r + 1) c \<noteq> None)"

definition board_inv :: "board \<Rightarrow> bool" where
  "board_inv b = (wf_board b \<and> gravity b)"

text \<open>
  The scenario of consecutive drops by one player: \<open>drop_disc\<close> places for the current player
  and leaves the player as it is, so a list of columns is played by the same player; the
  result is the state reached and the cells placed, in order.
\<close>

fun drops :: "connect_four \<Rightarrow> int list \<Rightarrow> drop_error + (connect_four \<times> coord list)" where
  "drops s [] = Inr (s, [])"
| "drops s (col # cols) =
     (case drop_disc s col of
        Inl e \<Rightarrow> Inl e
      | Inr (s1, row) \<Rightarrow>
          (case drops s1 cols of
             Inl e \<Rightarrow> Inl e
           | Inr (s2, placed) \<Rightarrow> Inr (s2, (row, col) # placed)))"

text \<open>Horizontal mirroring: cell \<open>(r, c)\<close> goes to \<open>(r, COLS - 1 - c)\<close>.\<close>

definition mirror_coord :: "coord \<Rightarrow> coord" where
  "mirror_coord p = (case p of (r, c) \<Rightarrow> (r, COLS - 1 - c))"

definition mirror_board :: "board \<Rightarrow> board" where
  "mirror_board b = map rev b"

definition mirror_game :: "connect_four \<Rightarrow> connect_four" where
  "mirror_game s = s\<lparr>board := mirror_board (board s)\<rparr>"

text \<open>The line of a direction-pair through the cell has the four cells of a win.\<close>

definition long_line :: "board \<Rightarrow> color \<Rightarrow> int \<Rightarrow> int \<Rightarrow> int \<times> int \<Rightarrow> bool" where
  "long_line b p row col d = (4 \<le> length (line_through b p row col d))"

section \<open>Connect Four: sample games\<close>

text \<open>Column 3 filled by six alternating clicks; no line of four, red to move.\<close>

definition full_column_game :: connect_four where
  "full_column_game =
     \<lparr>board =
        [[None, None, None, Some Yellow, None, None, None],
         [None, None, None, Some Red, None, None, None],
         [None, None, None, Some Yellow, None, None, None],
         [None, None, None, Some Red, None, None, None],
         [None, None, None, Some Yellow, None, None, None],
         [None, None, None, Some Red, None, None, None]],
      current_player = Red, game_over = False, win_coords = [], hover_col = None\<rparr>"

text \<open>A game red has won with a vertical line in column 3.\<close>

definition won_game :: connect_four where
  "won_game =
     \<lparr>board =
        [[None, None, None, None, None, None, None],
         [None, None, None, None, None, None, None],
         [None, None, None, Some Red, None, None, None],
         [Some Yellow, None, None, Some Red, None, None, None],
         [Some Yellow, None, None, Some Red, None, None, None],
         [Some Yellow, None, None, Some Red, None, None, None]],
      current_player = Red, game_over = True,
      win_coords = [(2, 3), (3, 3), (4, 3), (5, 3)], hover_col = None\<rparr>"

text \<open>The 42 clicks of a game that fills the board with no line of four.\<close>

definition draw_clicks :: "event list" where
  "draw_clicks =
     [Click 45, Click 45, Click 45, Click 45, Click 45, Click 45, Click 135, Click
      135, Click 135, Click 135, Click 135, Click 135, Click 405, Click 225, Click
      225, Click 225, Click 225, Click 225, Click 225, Click 315, Click 315, Click
      315, Click 315, Click 315, Click 315, Click 405, Click 405, Click 405, Click
      405, Click 405, Click 495, Click 495, Click 495, Click 495, Click 495, Click
      585, Click 585, Click 585, Click 585, Click 585, Click 585, Click 495]"

definition drawn_game :: connect_four where
  "drawn_game =
     \<lparr>board =
        [[Some Yellow, Some Yellow, Some Red, Some Red, Some Yellow, Some Yellow, Some Red],
         [Some Red, Some Red, Some Yellow, Some Yellow, Some Red, Some Red, Some Yellow],
         [Some Yellow, Some Yellow, Some Red, Some Red, Some Yellow, Some Yellow, Some Red],
         [Some Red, Some Red, Some Yellow, Some Yellow, Some Red, Some Red, Some Yellow],
         [Some Yellow, Some Yellow, Some Red, Some Red, Some Yellow, Some Yellow, Some Red],
         [Some Red, Some Red, Some Yellow, Some Yellow, Some Red, Some Red, Some Yellow]],
      current_player = Yellow, game_over = True, win_coords = [], hover_col = None\<rparr>"

text \<open>
  Twelve clicks of a game, red and yellow in turn, after which red's disc in column 3
  lands on \<open>(3, 3)\<close> and completes both diagonals through it at once; and the position
  with that disc placed, as \<open>_check_winner\<close> sees it.
\<close>

definition cross_clicks :: "event list" where
  "cross_clicks =
     [Click 100, Click 200, Click 200, Click 200, Click 200, Click 400, Click 400,
      Click 400, Click 400, Click 300, Click 500, Click 300]"

definition cross_board :: board where
  "cross_board =
     [[None, None, None, None, None, None, None],
      [None, None, None, None, None, None, None],
      [None, None, Some Red, None, Some Red, None, None],
      [None, None, Some Yellow, Some Red, Some Yellow, None, None],
      [None, None, Some Red, Some Yellow, Some Red, None, None],
      [None, Some Red, Some Yellow, Some Yellow, Some Yellow, Some Red, None]]"

definition cross_game :: connect_four where
  "cross_game = \<lparr>board = cross_board, current_player = Red, game_over = False,
                  win_coords = [], hover_col = None\<rparr>"

text \<open>A position where red's disc at \<open>(5, 2)\<close> joins a disc on its left to two on its right.\<close>

definition row_game :: connect_four where
  "row_game =
     \<lparr>board =
        [[None, None, None, None, None, None, None],
         [None, None, None, None, None, None, None],
         [None, None, None, None, None, None, None],
         [None, None, None, None, None, None, None],
         [None, Some Yellow, None, Some Yellow, Some Yellow, None, None],
         [None, Some Red, Some Red, Some Red, Some Red, None, None]],
      current_player = Red, game_over = False, win_coords = [], hover_col = None\<rparr>"

text \<open>The position after four drops of red in column 3 of the empty board.\<close>

definition four_in_column_game :: connect_four where
  "four_in_column_game =
     \<lparr>board =
        [[None, None, None, None, None, None, None],
         [None, None, None, None, None, None, None],
         [None, None, None, Some Red, None, None, None],
         [None, None, None, Some Red, None, None, None],
         [None, None, None, Some Red, None, None, None],
         [None, None, None, Some Red, None, None, None]],
      current_player = Red, game_over = False, win_coords = [], hover_col = None\<rparr>"

section \<open>Tic-Tac-Toe (tic-tac-toe.py)\<close>

text \<open>
  The state of the window: the 3 by 3 board of optional markers, the player to move and
  the game-over flag. The handler's writes to the widgets (button text, highlight, turn
  label) and its dialogs are returned as a list of effects. Rows and columns come from
  \<open>range(SIZE)\<close> through the buttons' callbacks.
\<close>

text \<open>The markers \<open>"X"\<close> and \<open>"O"\<close>.\<close>

datatype mark = MarkX | MarkO

definition SIZE :: nat where "SIZE = 3"

record tic_tac_toe =
  ttt_current_player :: mark
  ttt_board :: "mark option list list"
  ttt_game_over :: bool

datatype ttt_effect =
    ButtonText nat nat mark
  | HighlightWinner "(nat \<times> nat) list"
  | WinDialog mark
  | DrawDialog
  | TurnLabel mark

definition ttt_init :: tic_tac_toe where
  "ttt_init = \<lparr>ttt_current_player = MarkX,
                ttt_board = replicate SIZE (replicate SIZE None),
                ttt_game_over = False\<rparr>"

text \<open>
  \<open>_check_winner\<close>: the first full row, then the first full column, then the main
  diagonal, then the anti-diagonal; \<open>(None, [])\<close> when there is none.
\<close>

definition ttt_check_winner ::
  "mark option list list \<Rightarrow> mark option \<times> (nat \<times> nat) list" where
  "ttt_check_winner b =
     (case find (\<lambda>r. b ! r ! 0 \<noteq> None \<and> list_all (\<lambda>c. b ! r ! c = b ! r ! 0) [0..<SIZE])
                [0..<SIZE] of
        Some r \<Rightarrow> (b ! r ! 0, map (\<lambda>c. (r, c)) [0..<SIZE])
      | None \<Rightarrow>
     (case find (\<lambda>c. b ! 0 ! c \<noteq> None \<and> list_all (\<lambda>r. b ! r ! c = b ! 0 ! c) [0..<SIZE])
                [0..<SIZE] of
        Some c \<Rightarrow> (b ! 0 ! c, map (\<lambda>r. (r, c)) [0..<SIZE])
      | None \<Rightarrow>
          if b ! 0 ! 0 \<noteq> None \<and> list_all (\<lambda>i. b ! i ! i = b ! 0 ! 0) [0..<SIZE]
          then (b ! 0 ! 0, map (\<lambda>i. (i, i)) [0..<SIZE])
          else if b ! 0 ! (SIZE - 1) \<noteq> None \<and>
                  list_all (\<lambda>i. b ! i ! (SIZE - 1 - i) = b ! 0 ! (SIZE - 1)) [0..<SIZE]
          then (b ! 0 ! (SIZE - 1), map (\<lambda>i. (i, SIZE - 1 - i)) [0..<SIZE])
          else (None, [])))"

definition ttt_is_board_full :: "mark option list list \<Rightarrow> bool" where
  "ttt_is_board_full b =
     list_all (\<lambda>r. list_all (\<lambda>c. b ! r ! c \<noteq> None) [0..<SIZE]) [0..<SIZE]"

text \<open>\<open>_on_click(row, col)\<close>: the state after the handler and the effects it had.\<close>

definition ttt_on_click ::
  "tic_tac_toe \<Rightarrow> nat \<Rightarrow> nat \<Rightarrow> tic_tac_toe \<times> ttt_effect list" where
  "ttt_on_click s row col =
     (if ttt_game_over s then (s, [])
      else if ttt_board s ! row ! col \<noteq> None then (s, [])
      else
        let p = ttt_current_player s;
            s1 = s\<lparr>ttt_board := (ttt_board s)[row := (ttt_board s ! row)[col := Some p]]\<rparr>;
            placed = [ButtonText row col p]
        in case ttt_check_winner (ttt_board s1) of
             (Some w, coords) \<Rightarrow>
               (s1\<lparr>ttt_game_over := True\<rparr>, placed @ [HighlightWinner coords, WinDialog w])
           | (None, coords) \<Rightarrow>
               if ttt_is_board_full (ttt_board s1)
               then (s1\<lparr>ttt_game_over := True\<rparr>, placed @ [DrawDialog])
               else
                 let q = (if p = MarkX then MarkO else MarkX)
                 in (s1\<lparr>ttt_current_player := q\<rparr>, placed @ [TurnLabel q]))"

definition ttt_reset_game :: "tic_tac_toe \<Rightarrow> tic_tac_toe" where
  "ttt_reset_game s = s\<lparr>ttt_board := replicate SIZE (replicate SIZE None),
                         ttt_current_player := MarkX, ttt_game_over := False\<rparr>"

text \<open>The shape of the board the window builds and keeps.\<close>

definition ttt_wf :: "mark option list list \<Rightarrow> bool" where
  "ttt_wf b = (length b = SIZE \<and> list_all (\<lambda>row. length row = SIZE) b)"

text \<open>A game in progress: X in the centre, O in a corner, X to move.\<close>

definition ttt_sample :: tic_tac_toe where
  "ttt_sample = \<lparr>ttt_current_player = MarkX,
                  ttt_board = [[Some MarkO, None, None], [None, Some MarkX, None], [None, None, None]],
                  ttt_game_over = False\<rparr>"

section \<open>Calculator (calculator.py)\<close>

text \<open>
  The exceptions the handler can meet: \<open>float(s)\<close> on a string that is no number,
  a float division by zero, and the read of \<open>result\<close> when no branch assigned it.
\<close>

datatype py_exception = ValueError | ZeroDivisionError | UnboundLocalError

text \<open>
  Python's \<open>float\<close> is taken as a parameter: the type \<open>'f\<close> of its values with
  \<open>float(s)\<close> (\<open>None\<close> where it raises \<open>ValueError\<close>), \<open>str(x)\<close>, the three total
  operations, the division (\<open>None\<close> where it raises \<open>ZeroDivisionError\<close>), and the value of
  the initial \<open>stored_value = 0\<close>.
\<close>

record 'f float_ops =
  float_of_str :: "string \<Rightarrow> 'f option"
  str_of_float :: "'f \<Rightarrow> string"
  float_add :: "'f \<Rightarrow> 'f \<Rightarrow> 'f"
  float_sub :: "'f \<Rightarrow> 'f \<Rightarrow> 'f"
  float_mul :: "'f \<Rightarrow> 'f \<Rightarrow> 'f"
  float_div :: "'f \<Rightarrow> 'f \<Rightarrow> 'f option"
  float_zero :: "'f"

record 'f calculator =
  current_input :: string
  operation :: "char option"
  stored_value :: "'f"
  reset_screen :: bool

definition calc_init :: "'f float_ops \<Rightarrow> 'f calculator" where
  "calc_init ops = \<lparr>current_input = ''0'', operation = None,
                     stored_value = float_zero ops, reset_screen = False\<rparr>"

text \<open>
  \<open>_calculate\<close>. The \<open>try\<close> catches \<open>ZeroDivisionError\<close> only: a \<open>ValueError\<close> of
  \<open>float(self.current_input.get())\<close> leaves the function.
\<close>

definition calculate :: "'f float_ops \<Rightarrow> 'f calculator \<Rightarrow> py_exception + 'f calculator" where
  "calculate ops s =
     (case float_of_str ops (current_input s) of
        None \<Rightarrow> Inl ValueError
      | Some current \<Rightarrow>
          let done = (\<lambda>result. Inr (s\<lparr>current_input := str_of_float ops result,
                                      stored_value := result, reset_screen := True\<rparr>))
          in
          if operation s = Some CHR ''+'' then done (float_add ops (stored_value s) current)
          else if operation s = Some CHR ''-'' then done (float_sub ops (stored_value s) current)
          else if operation s = Some CHR ''*'' then done (float_mul ops (stored_value s) current)
          else if operation s = Some CHR ''/'' then
            (case float_div ops (stored_value s) current of
               None \<Rightarrow> Inr (s\<lparr>current_input := ''Error'', reset_screen := True\<rparr>)
             | Some result \<Rightarrow> done result)
          else Inl UnboundLocalError)"

text \<open>\<open>_on_button_click(symbol)\<close> for the one-character symbols of the buttons.\<close>

definition on_button_click ::
  "'f float_ops \<Rightarrow> 'f calculator \<Rightarrow> char \<Rightarrow> py_exception + 'f calculator" where
  "on_button_click ops s symbol =
     (let current = current_input s in
      if symbol \<in> set ''0123456789'' then
        (if current = ''0'' \<or> reset_screen s
         then Inr (s\<lparr>current_input := [symbol], reset_screen := False\<rparr>)
         else Inr (s\<lparr>current_input := current @ [symbol]\<rparr>))
      else if symbol = CHR ''C'' then
        Inr (s\<lparr>current_input := ''0'', stored_value := float_zero ops, operation := None\<rparr>)
      else if symbol \<in> set ''+-*/'' then
        (case (if operation s \<noteq> None \<and> \<not> reset_screen s then calculate ops s else Inr s) of
           Inl e \<Rightarrow> Inl e
         | Inr s1 \<Rightarrow>
             (case float_of_str ops current of
                None \<Rightarrow> Inl ValueError
              | Some v \<Rightarrow>
                  Inr (s1\<lparr>stored_value := v, operation := Some symbol, reset_screen := True\<rparr>)))
      else if symbol = CHR ''='' then
        (if operation s \<noteq> None then
           (case calculate ops s of
              Inl e \<Rightarrow> Inl e
            | Inr s1 \<Rightarrow> Inr (s1\<lparr>operation := None\<rparr>))
         else Inr s)
      else Inr s)"

text \<open>A sequence of button presses; an exception that leaves a handler ends the run.\<close>

fun press_all ::
  "'f float_ops \<Rightarrow> 'f calculator \<Rightarrow> char list \<Rightarrow> py_exception + 'f calculator" where
  "press_all ops s [] = Inr s"
| "press_all ops s (b # bs) =
     (case on_button_click ops s b of
        Inl e \<Rightarrow> Inl e
      | Inr s1 \<Rightarrow> press_all ops s1 bs)"

text \<open>
  A small stand-in for the float type, to have one instance at hand: the integers, read
  from and printed as decimal strings with an optional sign and an optional \<open>.0\<close>.
\<close>

definition digits_value :: "string \<Rightarrow> int" where
  "digits_value s = foldl (\<lambda>a c. 10 * a + (of_char c - 48)) 0 s"

fun digits_of :: "nat \<Rightarrow> string" where
  "digits_of n =
     (if n < 10 then [char_of (48 + n)]
      else digits_of (n div 10) @ [char_of (48 + n mod 10)])"

definition int_of_str :: "string \<Rightarrow> int option" where
  "int_of_str s =
     (let neg = (s \<noteq> [] \<and> hd s = CHR ''-'');
          t = (if neg then tl s else s);
          u = (if 2 \<le> length t \<and> drop (length t - 2) t = ''.0''
               then take (length t - 2) t else t)
      in if u \<noteq> [] \<and> list_all (\<lambda>c. c \<in> set ''0123456789'') u
         then Some (if neg then - digits_value u else digits_value u)
         else None)"

definition str_of_int :: "int \<Rightarrow> string" where
  "str_of_int x = (if x < 0 then ''-'' else []) @ digits_of (nat \<bar>x\<bar>) @ ''.0''"

definition int_ops :: "int float_ops" where
  "int_ops =
     \<lparr>float_of_str = int_of_str, str_of_float = str_of_int,
      float_add = (+), float_sub = (-), float_mul = (*),
      float_div = (\<lambda>a b. if b = 0 then None else Some (a div b)),
      float_zero = 0\<rparr>"

section \<open>Connect Four: the scan returns, and what it returns\<close>

lemma walk_takeWhile:
  "\<exists>q \<in> set (outward (Suc n) r c sr sc). \<not> matches b p q \<Longrightarrow>
   walk b p sr sc (r + sr) (c + sc) coords =
     Some (coords @ takeWhile (matches b p) (outward n r c sr sc))"
proof (induction n arbitrary: r c coords)
  case 0
  then show ?case by (subst walk.simps) simp
next
  case (Suc n)
  show ?case
  proof (cases "matches b p (r + sr, c + sc)")
    case False
    then show ?thesis by (subst walk.simps) simp
  next
    case True
    with Suc.prems have "\<exists>q \<in> set (outward (Suc n) (r + sr) (c + sc) sr sc). \<not> matches b p q"
      by auto
    from Suc.IH [OF this] True show ?thesis
      by (subst walk.simps) simp
  qed
qed

lemma outward_nth:
  "k < n \<Longrightarrow> outward n r c sr sc ! k = (r + int (Suc k) * sr, c + int (Suc k) * sc)"
proof (induction n arbitrary: r c k)
  case 0
  then show ?case by simp
next
  case (Suc n)
  then show ?case by (cases k) (auto simp: algebra_simps)
qed

lemma length_outward: "length (outward n r c sr sc) = n"
  by (induction n arbitrary: r c) auto

lemma matches_in_bounds: "matches b p (r, c) \<Longrightarrow> in_bounds r c"
  by (simp add: matches_def in_bounds_def)

text \<open>With a step that is not zero, one of the first 8 outward cells is off the board.\<close>

lemma outward_leaves_board:
  assumes "sr \<noteq> 0 \<or> sc \<noteq> 0"
  shows "\<exists>q \<in> set (outward 8 r c sr sc). \<not> matches b p q"
proof -
  let ?xs = "outward 8 r c sr sc"
  have a: "?xs ! 0 = (r + sr, c + sc)" using outward_nth [of 0 8 r c sr sc] by simp
  have z: "?xs ! 7 = (r + 8 * sr, c + 8 * sc)" using outward_nth [of 7 8 r c sr sc] by simp
  have "\<not> (in_bounds (r + sr) (c + sc) \<and> in_bounds (r + 8 * sr) (c + 8 * sc))"
    using assms by (auto simp: in_bounds_def ROWS_def COLS_def)
  then have "\<not> matches b p (?xs ! 0) \<or> \<not> matches b p (?xs ! 7)"
    unfolding a z using matches_in_bounds by blast
  moreover have "?xs ! 0 \<in> set ?xs" "?xs ! 7 \<in> set ?xs"
    by (rule nth_mem, simp add: length_outward)+
  ultimately show ?thesis by blast
qed

lemma walk_run_from:
  "sr \<noteq> 0 \<or> sc \<noteq> 0 \<Longrightarrow>
   walk b p sr sc (r + sr) (c + sc) coords = Some (coords @ run_from b p r c sr sc)"
  using walk_takeWhile [of 7 r c sr sc b p coords] outward_leaves_board [of sr sc r c b p]
  by (simp add: eval_nat_numeral run_from_def ROWS_def COLS_def)

lemma walk_run_from_neg:
  "dr \<noteq> 0 \<or> dc \<noteq> 0 \<Longrightarrow>
   walk b p (- dr) (- dc) (r - dr) (c - dc) coords =
     Some (coords @ run_from b p r c (- dr) (- dc))"
  using walk_run_from [of "- dr" "- dc" b p r c coords] by simp

lemma scan_directions_find:
  "\<forall>d \<in> set ds. fst d \<noteq> 0 \<or> snd d \<noteq> 0 \<Longrightarrow>
   scan_directions b p row col ds =
     Some (case find (\<lambda>d. 4 \<le> length (line_through b p row col d)) ds of
             None \<Rightarrow> (None, [])
           | Some d \<Rightarrow> (Some p, line_through b p row col d))"
proof (induction ds)
  case Nil
  then show ?case by simp
next
  case (Cons d ds)
  obtain dr dc where d: "d = (dr, dc)" by (cases d)
  with Cons.prems have nz: "dr \<noteq> 0 \<or> dc \<noteq> 0" by simp
  from Cons have IH: "scan_directions b p row col ds =
     Some (case find (\<lambda>d. 4 \<le> length (line_through b p row col d)) ds of
             None \<Rightarrow> (None, [])
           | Some d \<Rightarrow> (Some p, line_through b p row col d))" by simp
  show ?case
    unfolding d
    by (simp add: walk_run_from [OF nz] walk_run_from_neg [OF nz] IH line_through_def)
qed

lemma check_winner_find:
  "check_winner s row col =
     Some (case find (\<lambda>d. 4 \<le> length (line_through (board s) (current_player s) row col d))
                     directions of
             None \<Rightarrow> (None, [])
           | Some d \<Rightarrow> (Some (current_player s),
                        line_through (board s) (current_player s) row col d))"
  unfolding check_winner_def
  by (rule scan_directions_find) (simp add: directions_def)

section \<open>Connect Four: the drop\<close>

lemma rows_bottom_up_eq: "rows_bottom_up = [5, 4, 3, 2, 1, 0]"
  by (simp add: rows_bottom_up_def ROWS_def upto.simps)

lemma set_rows_bottom_up: "set rows_bottom_up = {r. 0 \<le> r \<and> r < ROWS}"
  by (auto simp: rows_bottom_up_def)

lemma find_target_row_None:
  "find_target_row b col rs = None \<longleftrightarrow> (\<forall>r \<in> set rs. cell_at b r col \<noteq> None)"
  by (induction rs) auto

lemma find_target_row_Some:
  "find_target_row b col rs = Some row \<Longrightarrow>
   \<exists>pre post. rs = pre @ row # post \<and> (\<forall>r \<in> set pre. cell_at b r col \<noteq> None)
      \<and> cell_at b row col = None"
proof (induction rs)
  case Nil
  then show ?case by simp
next
  case (Cons a rs)
  show ?case
  proof (cases "cell_at b a col = None")
    case True
    with Cons.prems have "a = row" by simp
    with True show ?thesis by (intro exI [of _ "[]"] exI [of _ rs]) simp
  next
    case False
    with Cons.prems have "find_target_row b col rs = Some row" by simp
    from Cons.IH [OF this] obtain pre post where
      "rs = pre @ row # post" "\<forall>r \<in> set pre. cell_at b r col \<noteq> None" "cell_at b row col = None"
      by blast
    with False show ?thesis
      by (intro exI [of _ "a # pre"] exI [of _ post]) simp
  qed
qed

lemma sorted_rows_bottom_up: "sorted_wrt (>) rows_bottom_up"
  by (simp add: rows_bottom_up_eq)

lemma target_row_lowest:
  assumes "find_target_row b col rows_bottom_up = Some row"
  shows "0 \<le> row \<and> row < ROWS \<and> cell_at b row col = None \<and>
         (\<forall>r. row < r \<and> r < ROWS \<longrightarrow> cell_at b r col \<noteq> None)"
proof -
  from find_target_row_Some [OF assms] obtain pre post where
    rs: "rows_bottom_up = pre @ row # post" and
    pre: "\<forall>r \<in> set pre. cell_at b r col \<noteq> None" and emp: "cell_at b row col = None"
    by blast
  have "row \<in> set rows_bottom_up" by (simp add: rs)
  then have rng: "0 \<le> row \<and> row < ROWS" by (simp add: set_rows_bottom_up)
  have below: "cell_at b r col \<noteq> None" if "row < r" "r < ROWS" for r
  proof -
    from that rng have "r \<in> set rows_bottom_up" by (simp add: set_rows_bottom_up)
    moreover from sorted_rows_bottom_up have "\<forall>y \<in> set post. y < row"
      unfolding rs by (auto simp: sorted_wrt_append)
    ultimately have "r \<in> set pre" using that unfolding rs by auto
    with pre show ?thesis by blast
  qed
  from rng emp below show ?thesis by blast
qed

lemma wf_board_set_cell:
  assumes "wf_board b"
  shows "wf_board (set_cell b r c v)"
proof (cases "nat r < length b")
  case True
  then have "b ! nat r \<in> set b" by simp
  with assms have "length ((b ! nat r)[nat c := v]) = nat COLS"
    by (simp add: wf_board_def list_all_iff)
  with assms show ?thesis
    by (auto simp: wf_board_def set_cell_def list_all_iff
             dest!: set_update_subset_insert [THEN subsetD])
next
  case False
  then have "set_cell b r c v = b" by (simp add: set_cell_def list_update_beyond)
  with assms show ?thesis by simp
qed

lemma cell_at_set_cell:
  assumes "wf_board b" "in_bounds r c" "in_bounds r' c'"
  shows "cell_at (set_cell b r c v) r' c' = (if r' = r \<and> c' = c then v else cell_at b r' c')"
proof -
  from assms have lr: "nat r < length b" "nat r' < length b"
    by (auto simp: wf_board_def in_bounds_def)
  with assms have lc: "nat c < length (b ! nat r)" "nat c' < length (b ! nat r')"
    by (auto simp: wf_board_def in_bounds_def list_all_length)
  from assms have eqs: "nat r' = nat r \<longleftrightarrow> r' = r" "nat c' = nat c \<longleftrightarrow> c' = c"
    by (auto simp: in_bounds_def)
  show ?thesis
    using lr lc eqs by (auto simp: cell_at_def set_cell_def nth_list_update)
qed

lemma column_full_iff:
  "column_full b col \<longleftrightarrow> (\<forall>r. 0 \<le> r \<and> r < ROWS \<longrightarrow> cell_at b r col \<noteq> None)"
  by (auto simp: column_full_def list_all_iff)

lemma drop_full_iff: "drop_disc s col = Inl ColumnFullError \<longleftrightarrow> column_full (board s) col"
proof -
  have "drop_disc s col = Inl ColumnFullError \<longleftrightarrow>
          find_target_row (board s) col rows_bottom_up = None"
    by (simp add: drop_disc_def split: option.splits)
  then show ?thesis
    by (simp add: find_target_row_None set_rows_bottom_up column_full_iff)
qed

lemma drop_placed:
  assumes "drop_disc s col = Inr (s1, row)"
  shows "0 \<le> row \<and> row < ROWS \<and> cell_at (board s) row col = None \<and>
         (\<forall>r. row < r \<and> r < ROWS \<longrightarrow> cell_at (board s) r col \<noteq> None) \<and>
         s1 = s\<lparr>board := set_cell (board s) row col (Some (current_player s))\<rparr>"
proof -
  from assms have f: "find_target_row (board s) col rows_bottom_up = Some row"
    and s1: "s1 = s\<lparr>board := set_cell (board s) row col (Some (current_player s))\<rparr>"
    by (auto simp: drop_disc_def split: option.splits)
  from target_row_lowest [OF f] s1 show ?thesis by blast
qed

text \<open>The handler returns; its three outcomes.\<close>

lemma on_click_cases:
  obtains
    (ignored) "on_click s x = Some (s, [])"
      "game_over s \<or> \<not> (0 \<le> x div CELL \<and> x div CELL < COLS)"
  | (full) "on_click s x = Some (s, [ColumnFullNotice])" "\<not> game_over s"
      "0 \<le> x div CELL" "x div CELL < COLS" "drop_disc s (x div CELL) = Inl ColumnFullError"
  | (placed) s1 row s' ns where "on_click s x = Some (s', ns)" "\<not> game_over s"
      "0 \<le> x div CELL" "x div CELL < COLS" "drop_disc s (x div CELL) = Inr (s1, row)"
      "board s' = board s1"
proof (cases "game_over s \<or> \<not> (0 \<le> x div CELL \<and> x div CELL < COLS)")
  case True
  then have "on_click s x = Some (s, [])" by (auto simp: on_click_def Let_def)
  from this True show ?thesis by (rule ignored)
next
  case False
  show ?thesis
  proof (cases "drop_disc s (x div CELL)")
    case (Inl e)
    then have d: "drop_disc s (x div CELL) = Inl ColumnFullError" by (cases e) simp
    with False have "on_click s x = Some (s, [ColumnFullNotice])"
      by (simp add: on_click_def Let_def)
    with False d show ?thesis by (intro full) auto
  next
    case (Inr p)
    obtain s1 row where p: "p = (s1, row)" by (cases p)
    have "\<exists>s' ns. on_click s x = Some (s', ns) \<and> board s' = board s1"
      using False Inr p
      by (simp add: on_click_def Let_def check_winner_find split: option.splits)
    then obtain s' ns where "on_click s x = Some (s', ns)" "board s' = board s1" by blast
    with False Inr p show ?thesis by (intro placed [of s' ns s1 row]) auto
  qed
qed

section \<open>Connect Four: the invariant of the game\<close>

lemma wf_cells:
  assumes "wf_board b"
  shows "list_all (list_all P) b \<longleftrightarrow> (\<forall>r c. in_bounds r c \<longrightarrow> P (cell_at b r c))"
proof
  assume a: "list_all (list_all P) b"
  show "\<forall>r c. in_bounds r c \<longrightarrow> P (cell_at b r c)"
  proof (intro allI impI)
    fix r c assume "in_bounds r c"
    with assms have "nat r < length b" "nat c < length (b ! nat r)"
      by (auto simp: wf_board_def in_bounds_def list_all_length)
    with a show "P (cell_at b r c)" by (simp add: list_all_length cell_at_def)
  qed
next
  assume a: "\<forall>r c. in_bounds r c \<longrightarrow> P (cell_at b r c)"
  have "P (b ! i ! j)" if "i < length b" "j < length (b ! i)" for i j
  proof -
    from that assms have "in_bounds (int i) (int j)"
      by (auto simp: wf_board_def in_bounds_def list_all_length)
    with a have "P (cell_at b (int i) (int j))" by blast
    then show ?thesis by (simp add: cell_at_def)
  qed
  then show "list_all (list_all P) b" by (simp add: list_all_length)
qed

lemma wf_cells2:
  assumes "wf_board b" "wf_board b'"
  shows "list_all2 (list_all2 R) b b' \<longleftrightarrow>
           (\<forall>r c. in_bounds r c \<longrightarrow> R (cell_at b r c) (cell_at b' r c))"
proof
  assume a: "list_all2 (list_all2 R) b b'"
  show "\<forall>r c. in_bounds r c \<longrightarrow> R (cell_at b r c) (cell_at b' r c)"
  proof (intro allI impI)
    fix r c assume "in_bounds r c"
    with assms have "nat r < length b" "nat c < length (b ! nat r)"
      by (auto simp: wf_board_def in_bounds_def list_all_length)
    with a show "R (cell_at b r c) (cell_at b' r c)"
      by (simp add: list_all2_conv_all_nth cell_at_def)
  qed
next
  assume a: "\<forall>r c. in_bounds r c \<longrightarrow> R (cell_at b r c) (cell_at b' r c)"
  have len: "length b = length b'" using assms by (simp add: wf_board_def)
  have len2: "length (b ! i) = length (b' ! i)" if "i < length b" for i
    using that assms len by (simp add: wf_board_def list_all_length)
  have "R (b ! i ! j) (b' ! i ! j)" if "i < length b" "j < length (b ! i)" for i j
  proof -
    from that assms have "in_bounds (int i) (int j)"
      by (auto simp: wf_board_def in_bounds_def list_all_length)
    with a have "R (cell_at b (int i) (int j)) (cell_at b' (int i) (int j))" by blast
    then show ?thesis by (simp add: cell_at_def)
  qed
  with len len2 show "list_all2 (list_all2 R) b b'" by (simp add: list_all2_conv_all_nth)
qed

lemma wf_empty_board: "wf_board empty_board"
  by (simp add: wf_board_def empty_board_def list_all_iff)

lemma cell_at_empty_board: "in_bounds r c \<Longrightarrow> cell_at empty_board r c = None"
  by (simp add: cell_at_def empty_board_def in_bounds_def)

lemma board_inv_empty: "board_inv empty_board"
  by (simp add: board_inv_def wf_empty_board gravity_def cell_at_empty_board in_bounds_def)

lemma board_inv_drop:
  assumes inv: "board_inv (board s)" and col: "0 \<le> col" "col < COLS"
    and d: "drop_disc s col = Inr (s1, row)"
  shows "board_inv (board s1)"
proof -
  from inv have wf: "wf_board (board s)" and gr: "gravity (board s)"
    by (simp_all add: board_inv_def)
  from drop_placed [OF d] have row: "0 \<le> row" "row < ROWS"
    and below: "\<forall>r. row < r \<and> r < ROWS \<longrightarrow> cell_at (board s) r col \<noteq> None"
    and b1: "board s1 = set_cell (board s) row col (Some (current_player s))"
    by simp_all
  from row col have ib: "in_bounds row col" by (simp add: in_bounds_def)
  have new: "cell_at (board s1) r' c' =
      (if r' = row \<and> c' = col then Some (current_player s) else cell_at (board s) r' c')"
    if "in_bounds r' c'" for r' c'
    unfolding b1 by (rule cell_at_set_cell [OF wf ib that])
  have "cell_at (board s1) (r + 1) c \<noteq> None"
    if h: "in_bounds r c" "r + 1 < ROWS" "cell_at (board s1) r c \<noteq> None" for r c
  proof -
    from h have ib': "in_bounds (r + 1) c" by (simp add: in_bounds_def)
    note up = new [OF ib'] and here = new [OF h(1)]
    show ?thesis
    proof (cases "r + 1 = row \<and> c = col")
      case True
      with up show ?thesis by simp
    next
      case False
      show ?thesis
      proof (cases "r = row \<and> c = col")
        case True
        with below h have "cell_at (board s) (r + 1) c \<noteq> None" by simp
        with False up show ?thesis by simp
      next
        case notnew: False
        with h here have "cell_at (board s) r c \<noteq> None" by simp
        with gr h have "cell_at (board s) (r + 1) c \<noteq> None"
          unfolding gravity_def by blast
        with False up show ?thesis by simp
      qed
    qed
  qed
  then have "gravity (board s1)" unfolding gravity_def by blast
  moreover have "wf_board (board s1)" unfolding b1 by (rule wf_board_set_cell [OF wf])
  ultimately show ?thesis by (simp add: board_inv_def)
qed

lemma board_on_motion: "board (on_motion s x) = board s"
  by (simp add: on_motion_def Let_def)

lemma handle_total_inv:
  assumes "board_inv (board s)"
  shows "\<exists>s'. handle s e = Some s' \<and> board_inv (board s')"
proof (cases e)
  case (Click x)
  show ?thesis
  proof (cases s x rule: on_click_cases)
    case ignored
    with assms Click show ?thesis by simp
  next
    case full
    with assms Click show ?thesis by simp
  next
    case (placed s1 row s' ns)
    from board_inv_drop [OF assms placed(3,4,5)] placed(1,6) Click show ?thesis by simp
  qed
next
  case (Motion x)
  with assms show ?thesis by (simp add: board_on_motion)
next
  case Reset
  then show ?thesis by (simp add: reset_game_def board_inv_empty)
qed

lemma run_events_total_inv:
  "board_inv (board s) \<Longrightarrow> \<exists>s'. run_events s evs = Some s' \<and> board_inv (board s')"
proof (induction evs arbitrary: s)
  case Nil
  then show ?case by simp
next
  case (Cons e evs)
  from handle_total_inv [OF Cons.prems] obtain s1 where
    h: "handle s e = Some s1" and i: "board_inv (board s1)" by blast
  from Cons.IH [OF i] h show ?case by simp
qed

lemma board_inv_init: "board_inv (board init_game)"
  by (simp add: init_game_def board_inv_empty)

lemma gravity_down:
  assumes "gravity b" "in_bounds r c" "cell_at b r c \<noteq> None"
  shows "r + int k < ROWS \<Longrightarrow> cell_at b (r + int k) c \<noteq> None"
proof (induction k)
  case 0
  with assms show ?case by simp
next
  case (Suc k)
  then have "cell_at b (r + int k) c \<noteq> None" by simp
  moreover from Suc.prems assms(2) have "in_bounds (r + int k) c" "r + int k + 1 < ROWS"
    by (simp_all add: in_bounds_def)
  ultimately have "cell_at b (r + int k + 1) c \<noteq> None"
    using assms(1) unfolding gravity_def by blast
  then show ?case by (simp add: algebra_simps)
qed

lemma full_iff_all_occupied:
  assumes "board_inv (board s)"
  shows "is_board_full s \<longleftrightarrow> all_occupied (board s)"
proof -
  from assms have wf: "wf_board (board s)" and gr: "gravity (board s)"
    by (simp_all add: board_inv_def)
  have top: "is_board_full s \<longleftrightarrow> (\<forall>c. 0 \<le> c \<and> c < COLS \<longrightarrow> cell_at (board s) 0 c \<noteq> None)"
    by (auto simp: is_board_full_def list_all_iff)
  have occ: "all_occupied (board s) \<longleftrightarrow> (\<forall>r c. in_bounds r c \<longrightarrow> cell_at (board s) r c \<noteq> None)"
    unfolding all_occupied_def by (rule wf_cells [OF wf])
  show ?thesis
  proof
    assume f: "is_board_full s"
    have "cell_at (board s) r c \<noteq> None" if "in_bounds r c" for r c
    proof -
      from that have "in_bounds 0 c" "0 + int (nat r) < ROWS" "0 + int (nat r) = r"
        by (simp_all add: in_bounds_def ROWS_def)
      moreover from f top that have "cell_at (board s) 0 c \<noteq> None"
        by (simp add: in_bounds_def)
      ultimately show ?thesis using gravity_down [OF gr, of 0 c "nat r"] by simp
    qed
    with occ show "all_occupied (board s)" by blast
  next
    assume "all_occupied (board s)"
    with occ top show "is_board_full s" by (simp add: in_bounds_def ROWS_def)
  qed
qed

section \<open>Connect Four: cells only fill\<close>

lemma cells_monotone_refl: "cells_monotone b b"
  by (simp add: cells_monotone_def list_all2_same list_all_iff)

lemma cells_monotone_trans:
  assumes "cells_monotone b1 b2" "cells_monotone b2 b3"
  shows "cells_monotone b1 b3"
proof -
  let ?R = "\<lambda>x y :: cell. y = x \<or> (x = None \<and> y \<noteq> None)"
  have cell: "?R x z" if "?R x y" "?R y z" for x y z using that by auto
  have row: "list_all2 ?R xs zs" if "list_all2 ?R xs ys" "list_all2 ?R ys zs" for xs ys zs
    using that(1) that(2)
    by (rule list_all2_trans [rotated]) (use cell in blast)
  from assms show ?thesis
    unfolding cells_monotone_def
    by (rule list_all2_trans [rotated]) (use row in blast)
qed

lemma cells_monotone_drop:
  assumes wf: "wf_board (board s)" and col: "0 \<le> col" "col < COLS"
    and d: "drop_disc s col = Inr (s1, row)"
  shows "cells_monotone (board s) (board s1)"
proof -
  from drop_placed [OF d] have row: "0 \<le> row" "row < ROWS"
    and emp: "cell_at (board s) row col = None"
    and b1: "board s1 = set_cell (board s) row col (Some (current_player s))"
    by simp_all
  from row col have ib: "in_bounds row col" by (simp add: in_bounds_def)
  have wf1: "wf_board (board s1)" unfolding b1 by (rule wf_board_set_cell [OF wf])
  have "cell_at (board s1) r c = cell_at (board s) r c \<or>
        (cell_at (board s) r c = None \<and> cell_at (board s1) r c \<noteq> None)"
    if "in_bounds r c" for r c
    using emp unfolding b1 by (simp add: cell_at_set_cell [OF wf ib that])
  then show ?thesis
    unfolding cells_monotone_def by (simp add: wf_cells2 [OF wf wf1])
qed

lemma handle_monotone:
  assumes "board_inv (board s)" "e \<noteq> Reset" "handle s e = Some s'"
  shows "cells_monotone (board s) (board s')"
proof (cases e)
  case (Click x)
  from assms(1) have wf: "wf_board (board s)" by (simp add: board_inv_def)
  show ?thesis
  proof (cases s x rule: on_click_cases)
    case ignored
    with assms Click show ?thesis by (auto simp: cells_monotone_refl)
  next
    case full
    with assms Click show ?thesis by (auto simp: cells_monotone_refl)
  next
    case (placed s1 row s2 ns)
    from cells_monotone_drop [OF wf placed(3,4,5)] placed(1,6) assms(3) Click
    show ?thesis by auto
  qed
next
  case (Motion x)
  with assms show ?thesis by (auto simp: board_on_motion cells_monotone_refl)
next
  case Reset
  with assms show ?thesis by simp
qed

lemma run_events_monotone:
  "board_inv (board s) \<Longrightarrow> Reset \<notin> set evs \<Longrightarrow> run_events s evs = Some s' \<Longrightarrow>
   cells_monotone (board s) (board s')"
proof (induction evs arbitrary: s)
  case Nil
  then show ?case by (simp add: cells_monotone_refl)
next
  case (Cons e evs)
  from handle_total_inv [OF Cons.prems(1), of e] obtain s1 where
    h: "handle s e = Some s1" and i: "board_inv (board s1)" by blast
  from Cons.prems(2) have ne: "e \<noteq> Reset" and rest: "Reset \<notin> set evs" by auto
  from Cons.prems(3) h have "run_events s1 evs = Some s'" by simp
  from Cons.IH [OF i rest this] handle_monotone [OF Cons.prems(1) ne h]
  show ?case by (blast intro: cells_monotone_trans)
qed

lemma all_empty_reset: "all_empty (board (reset_game s))"
  by (simp add: reset_game_def all_empty_def empty_board_def list_all_iff)

section \<open>Connect Four: after the game is over\<close>

lemma game_over_handle:
  assumes "game_over s" "e \<noteq> Reset"
  shows "\<exists>s'. handle s e = Some s' \<and> game_over s' \<and> board s' = board s \<and>
           current_player s' = current_player s \<and> win_coords s' = win_coords s"
proof (cases e)
  case (Click x)
  with assms show ?thesis by (simp add: on_click_def)
next
  case (Motion x)
  with assms show ?thesis by (simp add: on_motion_def)
next
  case Reset
  with assms show ?thesis by simp
qed

lemma game_over_run_events:
  "game_over s \<Longrightarrow> Reset \<notin> set evs \<Longrightarrow>
   \<exists>s'. run_events s evs = Some s' \<and> game_over s' \<and> board s' = board s \<and>
        current_player s' = current_player s \<and> win_coords s' = win_coords s"
proof (induction evs arbitrary: s)
  case Nil
  then show ?case by simp
next
  case (Cons e evs)
  then have "e \<noteq> Reset" "Reset \<notin> set evs" by auto
  from game_over_handle [OF Cons.prems(1) this(1)] obtain s1 where
    h: "handle s e = Some s1" and g: "game_over s1" and
    same: "board s1 = board s" "current_player s1 = current_player s"
      "win_coords s1 = win_coords s" by blast
  from Cons.IH [OF g \<open>Reset \<notin> set evs\<close>] h same show ?case by simp
qed

section \<open>Connect Four: mirroring\<close>

lemma mirror_coord_involution: "mirror_coord (mirror_coord q) = q"
  by (cases q) (simp add: mirror_coord_def)

lemma wf_mirror_board: "wf_board b \<Longrightarrow> wf_board (mirror_board b)"
  by (simp add: wf_board_def mirror_board_def list_all_iff)

lemma cell_at_mirror_board:
  assumes "wf_board b" "in_bounds r c"
  shows "cell_at (mirror_board b) r c = cell_at b r (COLS - 1 - c)"
proof -
  from assms have lr: "nat r < length b" by (simp add: wf_board_def in_bounds_def)
  with assms have lc: "length (b ! nat r) = 7" "nat c < 7"
    by (auto simp: wf_board_def in_bounds_def list_all_length COLS_def)
  from assms have "7 - Suc (nat c) = nat (COLS - 1 - c)"
    unfolding in_bounds_def COLS_def by linarith
  with lr lc show ?thesis
    by (simp add: cell_at_def mirror_board_def rev_nth)
qed

lemma matches_mirror_board:
  assumes "wf_board b"
  shows "matches (mirror_board b) p q = matches b p (mirror_coord q)"
proof (cases q)
  case (Pair r c)
  show ?thesis
  proof (cases "in_bounds r c")
    case True
    then have "in_bounds r (COLS - 1 - c)" by (simp add: in_bounds_def)
    with True cell_at_mirror_board [OF assms True] show ?thesis
      by (simp add: Pair matches_def mirror_coord_def in_bounds_def)
  next
    case False
    then have "\<not> in_bounds r (COLS - 1 - c)" by (auto simp: in_bounds_def)
    with False show ?thesis
      by (auto simp: Pair matches_def mirror_coord_def in_bounds_def)
  qed
qed

lemma outward_mirror:
  "outward n r (COLS - 1 - c) sr sc = map mirror_coord (outward n r c sr (- sc))"
proof (induction n arbitrary: r c)
  case 0
  then show ?case by simp
next
  case (Suc n)
  have e: "COLS - 1 - c + sc = COLS - 1 - (c - sc)" by simp
  show ?case using Suc [of "r + sr" "c - sc"] by (simp add: mirror_coord_def e)
qed

lemma run_from_mirror:
  assumes "wf_board b"
  shows "run_from (mirror_board b) p row (COLS - 1 - col) sr sc =
           map mirror_coord (run_from b p row col sr (- sc))"
proof -
  have "matches (mirror_board b) p \<circ> mirror_coord = matches b p"
    by (rule ext) (simp add: matches_mirror_board [OF assms] mirror_coord_involution)
  then show ?thesis
    by (simp add: run_from_def outward_mirror takeWhile_map)
qed

lemma line_through_mirror:
  assumes "wf_board b"
  shows "line_through (mirror_board b) p row (COLS - 1 - col) (dr, dc) =
           mirror_coord (row, col) #
             map mirror_coord (run_from b p row col dr (- dc)) @
             map mirror_coord (run_from b p row col (- dr) dc)"
  using run_from_mirror [OF assms, of p row col dr dc]
    run_from_mirror [OF assms, of p row col "- dr" "- dc"]
  by (simp add: line_through_def mirror_coord_def)

lemma line_mirror_vertical:
  "wf_board b \<Longrightarrow> line_through (mirror_board b) p row (COLS - 1 - col) (1, 0) =
     map mirror_coord (line_through b p row col (1, 0))"
  by (simp add: line_through_mirror) (simp add: line_through_def)

lemma line_mirror_down_right:
  "wf_board b \<Longrightarrow> line_through (mirror_board b) p row (COLS - 1 - col) (1, 1) =
     map mirror_coord (line_through b p row col (1, -1))"
  by (simp add: line_through_mirror) (simp add: line_through_def)

lemma line_mirror_down_left:
  "wf_board b \<Longrightarrow> line_through (mirror_board b) p row (COLS - 1 - col) (1, -1) =
     map mirror_coord (line_through b p row col (1, 1))"
  by (simp add: line_through_mirror) (simp add: line_through_def)

lemma line_mirror_horizontal:
  "wf_board b \<Longrightarrow> line_through (mirror_board b) p row (COLS - 1 - col) (0, 1) =
     mirror_coord (row, col) #
       map mirror_coord (run_from b p row col 0 (-1)) @
       map mirror_coord (run_from b p row col 0 1)"
  by (simp add: line_through_mirror)

lemma check_winner_cases:
  fixes s row col
  defines "L \<equiv> line_through (board s) (current_player s) row col"
    and "long \<equiv> long_line (board s) (current_player s) row col"
  shows "check_winner s row col =
     Some (if long (0, 1) then (Some (current_player s), L (0, 1))
           else if long (1, 0) then (Some (current_player s), L (1, 0))
           else if long (1, 1) then (Some (current_player s), L (1, 1))
           else if long (1, -1) then (Some (current_player s), L (1, -1))
           else (None, []))"
  by (simp add: check_winner_find directions_def long_line_def L_def long_def)

lemma check_winner_mirror_cases:
  fixes s row col
  defines "L \<equiv> line_through (board s) (current_player s) row col"
    and "long \<equiv> long_line (board s) (current_player s) row col"
    and "A \<equiv> run_from (board s) (current_player s) row col 0 1"
    and "B \<equiv> run_from (board s) (current_player s) row col 0 (-1)"
  assumes wf: "wf_board (board s)"
  shows "check_winner (mirror_game s) row (COLS - 1 - col) =
     Some (if long (0, 1) then
             (Some (current_player s),
              mirror_coord (row, col) # map mirror_coord B @ map mirror_coord A)
           else if long (1, 0) then (Some (current_player s), map mirror_coord (L (1, 0)))
           else if long (1, -1) then (Some (current_player s), map mirror_coord (L (1, -1)))
           else if long (1, 1) then (Some (current_player s), map mirror_coord (L (1, 1)))
           else (None, []))"
proof -
  have h: "length (line_through (mirror_board (board s)) (current_player s) row
                    (COLS - 1 - col) (0, 1)) =
           length (line_through (board s) (current_player s) row col (0, 1))"
    by (simp add: line_mirror_horizontal [OF wf]) (simp add: line_through_def)
  show ?thesis
    unfolding check_winner_find
    by (simp add: mirror_game_def directions_def long_line_def L_def long_def A_def B_def h
          line_mirror_vertical [OF wf] line_mirror_down_right [OF wf]
          line_mirror_down_left [OF wf])
       (simp add: line_mirror_horizontal [OF wf])
qed

section \<open>Connect Four: a run is the whole walk\<close>

text \<open>
  The run is the whole walk: it holds the first \<open>n\<close> outward cells, all matching, and the
  outward cell after them does not match.
\<close>

lemma outward_snoc:
  "outward (Suc n) r c sr sc =
     outward n r c sr sc @ [(r + int (Suc n) * sr, c + int (Suc n) * sc)]"
proof (induction n arbitrary: r c)
  case 0
  then show ?case by simp
next
  case (Suc n)
  have "outward (Suc (Suc n)) r c sr sc = (r + sr, c + sc) # outward (Suc n) (r + sr) (c + sc) sr sc"
    by simp
  also have "\<dots> = (r + sr, c + sc) # outward n (r + sr) (c + sc) sr sc
      @ [(r + sr + int (Suc n) * sr, c + sc + int (Suc n) * sc)]"
    by (simp only: Suc.IH append_Cons)
  finally show ?case by (simp add: algebra_simps)
qed

lemma take_outward: "k \<le> n \<Longrightarrow> take k (outward n r c sr sc) = outward k r c sr sc"
proof (induction n arbitrary: r c k)
  case 0
  then show ?case by simp
next
  case (Suc n)
  then show ?case by (cases k) auto
qed

lemma run_from_maximal:
  fixes b p r c sr sc
  defines "n \<equiv> length (run_from b p r c sr sc)"
  assumes nz: "sr \<noteq> 0 \<or> sc \<noteq> 0"
  shows "run_from b p r c sr sc = outward n r c sr sc \<and>
         (\<forall>q \<in> set (outward n r c sr sc). matches b p q) \<and>
         \<not> matches b p (r + int (Suc n) * sr, c + int (Suc n) * sc)"
proof -
  let ?xs = "outward 7 r c sr sc"
  have rf: "run_from b p r c sr sc = takeWhile (matches b p) ?xs"
    by (simp add: run_from_def ROWS_def COLS_def)
  have n7: "n \<le> 7"
    unfolding n_def rf using length_takeWhile_le [of "matches b p" ?xs]
    by (simp add: length_outward)
  have "run_from b p r c sr sc = take n ?xs"
    unfolding n_def rf by (rule takeWhile_eq_take)
  with n7 have eq: "run_from b p r c sr sc = outward n r c sr sc"
    by (simp add: take_outward)
  have all: "\<forall>q \<in> set (outward n r c sr sc). matches b p q"
    unfolding eq [symmetric] rf by (auto dest: set_takeWhileD)
  have stop: "\<not> matches b p (r + int (Suc n) * sr, c + int (Suc n) * sc)"
  proof (cases "n < 7")
    case True
    then have "n < length ?xs" by (simp add: length_outward)
    with nth_length_takeWhile [of "matches b p" ?xs] have "\<not> matches b p (?xs ! n)"
      unfolding n_def rf by simp
    with outward_nth [OF True, of r c sr sc] show ?thesis by simp
  next
    case False
    with n7 have n: "n = 7" by simp
    from outward_leaves_board [OF nz, of r c b p] obtain q where
      q: "q \<in> set (outward 8 r c sr sc)" "\<not> matches b p q" by blast
    have "outward 8 r c sr sc = outward 7 r c sr sc @ [(r + int (Suc 7) * sr, c + int (Suc 7) * sc)]"
      using outward_snoc [of 7 r c sr sc] by simp
    with q all n show ?thesis by auto
  qed
  from eq all stop show ?thesis by blast
qed

section \<open>Connect Four: the claims\<close>

text \<open>
  Claim C1. For every board of 6 rows by 7 columns, every position \<open>(row, col)\<close> on it and
  every player, \<open>_check_winner\<close> returns, and what it returns is the result of
  \<open>checkWin_spec\<close>: it looks at the direction-pairs (0,1), (1,0), (1,1), (1,-1) in this
  order, takes for each the origin cell, the run of the player's cells in the positive
  direction and the run in the negative direction, and answers \<open>Won\<close> with the player and
  the coordinate list of the first pair whose list has at least 4 cells, \<open>NoWin\<close> when no
  pair has.
\<close>

theorem check_winner_refines_spec:
  assumes "wf_board (board s)" and "in_bounds row col"
  shows "map_option result_of (check_winner s row col) =
           Some (checkWin_spec (board s) row col (current_player s))"
  by (simp add: check_winner_find checkWin_spec_def directions_def result_of_def
           split: option.splits)

theorem check_winner_refines_spec_witness:
  "wf_board (board sample_game) \<and> in_bounds 2 3 \<and>
   map_option result_of (check_winner sample_game 2 3) =
     Some (Won Red [(2, 3), (3, 3), (4, 3), (5, 3)])"
proof -
  have w: "wf_board (board sample_game)" by code_simp
  have i: "in_bounds 2 3" by code_simp
  have e: "checkWin_spec (board sample_game) 2 3 (current_player sample_game) =
             Won Red [(2, 3), (3, 3), (4, 3), (5, 3)]" by code_simp
  from check_winner_refines_spec [OF w i] e w i show ?thesis by simp
qed

text \<open>
  Claim C2. For every column index \<open>0 \<le> col < 7\<close> (on a board of 6 rows by 7 columns), the
  drop fails with \<open>ColumnFullError\<close> exactly when every row of the column is occupied;
  otherwise the row it returns is the lowest unoccupied row of the column (the cell there
  is empty and every row below it in the column is occupied), exactly that cell is set to
  the current player, every other cell and every other field of the game is as before, and
  the board \<open>_on_click\<close> leaves for a click in that column of a game in progress is the
  board of the drop.
\<close>

theorem drop_lowest_empty:
  assumes "wf_board (board s)" and "0 \<le> col" and "col < COLS"
  shows "(case drop_disc s col of
            Inl e \<Rightarrow> e = ColumnFullError \<and> column_full (board s) col
          | Inr (s1, row) \<Rightarrow>
              \<not> column_full (board s) col \<and> 0 \<le> row \<and> row < ROWS \<and>
              cell_at (board s) row col = None \<and>
              (\<forall>r. row < r \<and> r < ROWS \<longrightarrow> cell_at (board s) r col \<noteq> None) \<and>
              (\<forall>r c. in_bounds r c \<longrightarrow>
                 cell_at (board s1) r c =
                   (if r = row \<and> c = col then Some (current_player s) else cell_at (board s) r c)) \<and>
              wf_board (board s1) \<and> s1 = s\<lparr>board := board s1\<rparr> \<and>
              (\<not> game_over s \<and> x div CELL = col \<longrightarrow>
                 (\<exists>s' ns. on_click s x = Some (s', ns) \<and> board s' = board s1)))"
proof (cases "drop_disc s col")
  case (Inl e)
  then have d: "drop_disc s col = Inl ColumnFullError" by (cases e) simp
  then have "column_full (board s) col" by (simp add: drop_full_iff)
  then show ?thesis unfolding d by simp
next
  case (Inr p)
  obtain s1 row where p: "p = (s1, row)" by (cases p)
  with Inr have d: "drop_disc s col = Inr (s1, row)" by simp
  note pl = drop_placed [OF d]
  from pl assms have ib: "in_bounds row col" by (simp add: in_bounds_def)
  from pl have b1: "board s1 = set_cell (board s) row col (Some (current_player s))" by simp
  from d have nf: "\<not> column_full (board s) col" using drop_full_iff [of s col] by simp
  have cells: "\<forall>r c. in_bounds r c \<longrightarrow>
     cell_at (board s1) r c =
       (if r = row \<and> c = col then Some (current_player s) else cell_at (board s) r c)"
    unfolding b1 using cell_at_set_cell [OF assms(1) ib] by blast
  have wf1: "wf_board (board s1)" unfolding b1 by (rule wf_board_set_cell [OF assms(1)])
  have rest: "s1 = s\<lparr>board := board s1\<rparr>" using pl by simp
  have click: "\<exists>s' ns. on_click s x = Some (s', ns) \<and> board s' = board s1"
    if "\<not> game_over s" "x div CELL = col"
  proof (cases s x rule: on_click_cases)
    case ignored
    with that assms show ?thesis by simp
  next
    case full
    with that d show ?thesis by simp
  next
    case (placed s1' row' s' ns)
    with that d show ?thesis by simp
  qed
  from nf pl cells wf1 rest click show ?thesis
    unfolding d by simp
qed

theorem drop_lowest_empty_witness:
  "wf_board (board sample_game) \<and> (0::int) \<le> 3 \<and> 3 < COLS \<and>
   \<not> column_full (board sample_game) 3 \<and>
   drop_disc sample_game 3 =
     Inr (sample_game\<lparr>board := set_cell sample_board 1 3 (Some Red)\<rparr>, 1) \<and>
   cell_at (board sample_game) 1 3 = None \<and>
   cell_at (set_cell sample_board 1 3 (Some Red)) 1 3 = Some Red \<and>
   cell_at (set_cell sample_board 1 3 (Some Red)) 0 3 = cell_at sample_board 0 3"
proof -
  have w: "wf_board (board sample_game)" by code_simp
  have c: "(0::int) \<le> 3" "3 < COLS" by code_simp+
  have d: "drop_disc sample_game 3 =
             Inr (sample_game\<lparr>board := set_cell sample_board 1 3 (Some Red)\<rparr>, 1)"
    by code_simp
  have ib: "in_bounds 1 3" "in_bounds 0 3" by code_simp+
  have p: "current_player sample_game = Red" "board sample_game = sample_board"
    by (simp_all add: sample_game_def)
  from drop_lowest_empty [OF w c, of 0] ib show ?thesis
    unfolding d using w c p by simp
qed

text \<open>
  Claim C3. For every column with all 6 rows occupied, a further drop into it gives
  \<open>ColumnFullError\<close>, and \<open>_on_click\<close> for a click in that column returns the game state
  it was given, every field as before: board, current player, game-over flag and winning
  line (with the column-full dialog when the game is in progress, silently when it is over).
\<close>

theorem full_column_rejected:
  assumes "wf_board (board s)" and "0 \<le> col" and "col < COLS"
    and "column_full (board s) col" and "x div CELL = col"
  shows "drop_disc s col = Inl ColumnFullError \<and>
         on_click s x = Some (s, if game_over s then [] else [ColumnFullNotice])"
proof -
  from assms(4) have d: "drop_disc s col = Inl ColumnFullError" by (simp add: drop_full_iff)
  with assms(2,3,5) have "on_click s x = Some (s, if game_over s then [] else [ColumnFullNotice])"
    by (simp add: on_click_def Let_def)
  with d show ?thesis by simp
qed

theorem full_column_rejected_witness:
  "wf_board (board full_column_game) \<and> (0::int) \<le> 3 \<and> 3 < COLS \<and>
   column_full (board full_column_game) 3 \<and> 300 div CELL = 3 \<and>
   drop_disc full_column_game 3 = Inl ColumnFullError \<and>
   on_click full_column_game 300 = Some (full_column_game, [ColumnFullNotice])"
proof -
  have w: "wf_board (board full_column_game)" by code_simp
  have c: "(0::int) \<le> 3" "3 < COLS" by code_simp+
  have f: "column_full (board full_column_game) 3" by code_simp
  have x: "300 div CELL = 3" by code_simp
  have g: "\<not> game_over full_column_game" by code_simp
  from full_column_rejected [OF w c f x] w c f x g show ?thesis by simp
qed

text \<open>
  Claim C5. Every sequence of clicks, pointer motions and resets from the initial game is
  handled to the end, and in the state it reaches \<open>_is_board_full\<close>, which looks at the top
  row only, is true exactly when every cell of the grid holds a disc.
\<close>

theorem top_row_full_iff_grid_full:
  "\<exists>s. run_events init_game evs = Some s \<and> (is_board_full s \<longleftrightarrow> all_occupied (board s))"
proof -
  from run_events_total_inv [OF board_inv_init, of evs] obtain s where
    "run_events init_game evs = Some s" "board_inv (board s)" by blast
  with full_iff_all_occupied [of s] show ?thesis by blast
qed

theorem top_row_full_iff_grid_full_witness:
  "run_events init_game draw_clicks = Some drawn_game \<and>
   is_board_full drawn_game \<and> all_occupied (board drawn_game)"
proof -
  have r: "run_events init_game draw_clicks = Some drawn_game" by code_simp
  have f: "is_board_full drawn_game" by code_simp
  from top_row_full_iff_grid_full [of draw_clicks] r f show ?thesis by simp
qed

text \<open>
  Claim C6. The terminal states are absorbing: in every state with the game over (won or
  drawn), a click returns the state unchanged and shows nothing; every sequence of clicks
  and pointer motions without a reset ends in a state with the game still over and the
  same board, current player and winning line; and the reset leaves the terminal state.
\<close>

theorem terminal_states_absorbing:
  assumes "game_over s"
  shows "on_click s x = Some (s, []) \<and>
         (Reset \<notin> set evs \<longrightarrow>
            (\<exists>s'. run_events s evs = Some s' \<and> game_over s' \<and> board s' = board s \<and>
                  current_player s' = current_player s \<and> win_coords s' = win_coords s)) \<and>
         \<not> game_over (reset_game s)"
  using assms game_over_run_events [of s evs]
  by (simp add: on_click_def reset_game_def)

theorem terminal_states_absorbing_witness:
  "game_over won_game \<and> on_click won_game 300 = Some (won_game, []) \<and>
   Reset \<notin> set [Click 10, Motion 200, Click 300] \<and>
   map_option board (run_events won_game [Click 10, Motion 200, Click 300]) =
     Some (board won_game) \<and>
   map_option game_over (run_events won_game [Click 10, Motion 200, Click 300]) = Some True \<and>
   \<not> game_over (reset_game won_game)"
proof -
  have g: "game_over won_game" by code_simp
  have n: "Reset \<notin> set [Click 10, Motion 200, Click 300]" by simp
  from terminal_states_absorbing [OF g, of 300 "[Click 10, Motion 200, Click 300]"] n g
  show ?thesis by auto
qed

text \<open>
  Claim C7. Take any sequence of clicks, pointer motions and resets from the initial game,
  and any further sequence after it: both are handled to the end; if the further sequence
  has no reset, every cell of the board after it either has the value it had before it or
  was empty before and holds a disc after (a disc is never removed or recoloured); and a
  reset makes every cell empty.
\<close>

theorem cells_fill_monotonically:
  "\<exists>s s'. run_events init_game evs = Some s \<and> run_events s evs' = Some s' \<and>
      (Reset \<notin> set evs' \<longrightarrow> cells_monotone (board s) (board s')) \<and>
      all_empty (board (reset_game s'))"
proof -
  from run_events_total_inv [OF board_inv_init, of evs] obtain s where
    s: "run_events init_game evs = Some s" "board_inv (board s)" by blast
  from run_events_total_inv [OF s(2), of evs'] obtain s' where
    s': "run_events s evs' = Some s'" by blast
  from run_events_monotone [OF s(2) _ s'] s s' all_empty_reset [of s'] show ?thesis by blast
qed

theorem cells_fill_monotonically_witness:
  "run_events init_game [Click 300, Click 300, Click 300, Click 300, Click 300, Click 300] =
     Some full_column_game \<and>
   Reset \<notin> set [Click 10, Click 300, Motion 100, Click 100] \<and>
   map_option board (run_events full_column_game [Click 10, Click 300, Motion 100, Click 100]) =
     Some [[None, None, None, Some Yellow, None, None, None],
           [None, None, None, Some Red, None, None, None],
           [None, None, None, Some Yellow, None, None, None],
           [None, None, None, Some Red, None, None, None],
           [None, None, None, Some Yellow, None, None, None],
           [Some Red, Some Yellow, None, Some Red, None, None, None]] \<and>
   cells_monotone (board full_column_game)
          [[None, None, None, Some Yellow, None, None, None],
           [None, None, None, Some Red, None, None, None],
           [None, None, None, Some Yellow, None, None, None],
           [None, None, None, Some Red, None, None, None],
           [None, None, None, Some Yellow, None, None, None],
           [Some Red, Some Yellow, None, Some Red, None, None, None]]"
proof -
  have a: "run_events init_game
             [Click 300, Click 300, Click 300, Click 300, Click 300, Click 300] =
           Some full_column_game" by code_simp
  have n: "Reset \<notin> set [Click 10, Click 300, Motion 100, Click 100]" by simp
  have b: "map_option board
             (run_events full_column_game [Click 10, Click 300, Motion 100, Click 100]) =
     Some [[None, None, None, Some Yellow, None, None, None],
           [None, None, None, Some Red, None, None, None],
           [None, None, None, Some Yellow, None, None, None],
           [None, None, None, Some Red, None, None, None],
           [None, None, None, Some Yellow, None, None, None],
           [Some Red, Some Yellow, None, Some Red, None, None, None]]" by code_simp
  from cells_fill_monotonically
         [of "[Click 300, Click 300, Click 300, Click 300, Click 300, Click 300]"
             "[Click 10, Click 300, Motion 100, Click 100]"] a n b
  show ?thesis by auto
qed

text \<open>
  Claim C8, as the code has it. On a board of 6 rows by 7 columns and a position on it,
  \<open>_check_winner\<close> on the column-mirrored board at the mirrored position returns the same
  winner as on the original board at the position, so it reports a win exactly when the
  original does. Its coordinate list is the mirror image of the original list, except in
  two cases: when the horizontal line decides, the two runs after the origin come in the
  other order (the same cells, mirrored); when neither the horizontal nor the vertical
  line decides and both diagonals have four cells, the original returns the down-right
  line and the mirrored call returns the mirror image of the down-left line.
\<close>

theorem check_winner_mirror:
  assumes "wf_board (board s)" and "in_bounds row col"
  shows "\<exists>w cs cs'.
     check_winner s row col = Some (w, cs) \<and>
     check_winner (mirror_game s) row (COLS - 1 - col) = Some (w, cs') \<and>
     (if long_line (board s) (current_player s) row col (0, 1) then
        cs = (row, col) # run_from (board s) (current_player s) row col 0 1
                        @ run_from (board s) (current_player s) row col 0 (-1) \<and>
        cs' = mirror_coord (row, col)
                # map mirror_coord (run_from (board s) (current_player s) row col 0 (-1))
                @ map mirror_coord (run_from (board s) (current_player s) row col 0 1)
      else if \<not> long_line (board s) (current_player s) row col (1, 0) \<and>
              long_line (board s) (current_player s) row col (1, 1) \<and>
              long_line (board s) (current_player s) row col (1, -1) then
        cs = line_through (board s) (current_player s) row col (1, 1) \<and>
        cs' = map mirror_coord (line_through (board s) (current_player s) row col (1, -1))
      else cs' = map mirror_coord cs)"
proof -
  note orig = check_winner_cases [of s row col]
    and mirr = check_winner_mirror_cases [OF assms(1), of row col]
  show ?thesis unfolding orig mirr by (simp add: line_through_def)
qed

text \<open>
  The claim as it was stated asks for the mirrored coordinates. In the game of
  \<open>cross_clicks\<close>, red's next click in column 3 places (3,3) and completes both
  diagonals. The scan returns the down-right line on the board and on its mirror image
  alike, and the mirror image of the first is not the second: the two do not even hold
  the same cells.
\<close>

theorem check_winner_mirror_counterexample:
  "map_option board (run_events init_game cross_clicks \<bind> (\<lambda>s. handle s (Click 300))) =
     Some cross_board \<and>
   check_winner cross_game 3 3 = Some (Some Red, [(3, 3), (4, 4), (5, 5), (2, 2)]) \<and>
   check_winner (mirror_game cross_game) 3 (COLS - 1 - 3) =
     Some (Some Red, [(3, 3), (4, 4), (5, 5), (2, 2)]) \<and>
   map mirror_coord [(3, 3), (4, 4), (5, 5), (2, 2)] = [(3, 3), (4, 2), (5, 1), (2, 4)] \<and>
   set [(3, 3), (4, 4), (5, 5), (2, 2)] \<noteq> set [(3, 3), (4, 2), (5, 1), (2, 4) :: coord]"
proof -
  have a: "map_option board (run_events init_game cross_clicks \<bind> (\<lambda>s. handle s (Click 300))) =
     Some cross_board" by code_simp
  have b: "check_winner cross_game 3 3 = Some (Some Red, [(3, 3), (4, 4), (5, 5), (2, 2)])"
    by code_simp
  have c: "check_winner (mirror_game cross_game) 3 (COLS - 1 - 3) =
     Some (Some Red, [(3, 3), (4, 4), (5, 5), (2, 2)])" by code_simp
  have d: "map mirror_coord [(3, 3), (4, 4), (5, 5), (2, 2)] = [(3, 3), (4, 2), (5, 1), (2, 4)]"
    by code_simp
  have "(4, 4) \<in> set [(3, 3), (4, 4), (5, 5), (2, 2) :: coord]"
    and "(4, 4) \<notin> set [(3, 3), (4, 2), (5, 1), (2, 4) :: coord]" by simp_all
  then have e: "set [(3, 3), (4, 4), (5, 5), (2, 2)] \<noteq> set [(3, 3), (4, 2), (5, 1), (2, 4) :: coord]"
    by metis
  from a b c d e show ?thesis by blast
qed

theorem check_winner_mirror_witness:
  "wf_board (board row_game) \<and> in_bounds 5 2 \<and>
   long_line (board row_game) (current_player row_game) 5 2 (0, 1) \<and>
   check_winner row_game 5 2 = Some (Some Red, [(5, 2), (5, 3), (5, 4), (5, 1)]) \<and>
   check_winner (mirror_game row_game) 5 (COLS - 1 - 2) =
     Some (Some Red, [(5, 4), (5, 5), (5, 3), (5, 2)])"
proof -
  have w: "wf_board (board row_game)" by code_simp
  have i: "in_bounds 5 2" by code_simp
  have l: "long_line (board row_game) (current_player row_game) 5 2 (0, 1)" by code_simp
  have a: "run_from (board row_game) (current_player row_game) 5 2 0 1 = [(5, 3), (5, 4)]"
    by code_simp
  have b: "run_from (board row_game) (current_player row_game) 5 2 0 (-1) = [(5, 1)]"
    by code_simp
  have m: "map mirror_coord [(5, 1)] = [(5, 5)]" "map mirror_coord [(5, 3), (5, 4)] = [(5, 3), (5, 2)]"
    "mirror_coord (5, 2) = (5, 4)" by code_simp+
  have r: "check_winner row_game 5 2 = Some (Some Red, [(5, 2), (5, 3), (5, 4), (5, 1)])"
    by code_simp
  from check_winner_mirror [OF w i] obtain w' cs cs' where
    o: "check_winner row_game 5 2 = Some (w', cs)" and
    mi: "check_winner (mirror_game row_game) 5 (COLS - 1 - 2) = Some (w', cs')" and
    sh: "cs' = mirror_coord (5, 2)
           # map mirror_coord (run_from (board row_game) (current_player row_game) 5 2 0 (-1))
           @ map mirror_coord (run_from (board row_game) (current_player row_game) 5 2 0 1)"
    using l by auto
  from o r have "w' = Some Red" by simp
  with mi sh a b m w i l r show ?thesis by simp
qed

text \<open>
  Claim C4, as the code has it. From the empty board, four drops of red in column 3 place
  the cells (5,3), (4,3), (3,3), (2,3) in this order, and \<open>_check_winner\<close> at the cell
  placed last, (2,3), returns red with the coordinate list [(2,3), (3,3), (4,3), (5,3)]:
  the four cells of the claim, listed from the placed cell downward.
\<close>

theorem four_in_column_wins:
  "drops init_game [3, 3, 3, 3] =
     Inr (four_in_column_game, [(5, 3), (4, 3), (3, 3), (2, 3)]) \<and>
   map_option result_of (check_winner four_in_column_game 2 3) =
     Some (Won Red [(2, 3), (3, 3), (4, 3), (5, 3)])"
proof -
  have a: "drops init_game [3, 3, 3, 3] =
     Inr (four_in_column_game, [(5, 3), (4, 3), (3, 3), (2, 3)])" by code_simp
  have b: "map_option result_of (check_winner four_in_column_game 2 3) =
     Some (Won Red [(2, 3), (3, 3), (4, 3), (5, 3)])" by code_simp
  from a b show ?thesis by simp
qed

text \<open>The list of the claim, with the placed cell last, is not what the scan returns.\<close>

theorem four_in_column_counterexample:
  "drops init_game [3, 3, 3, 3] =
     Inr (four_in_column_game, [(5, 3), (4, 3), (3, 3), (2, 3)]) \<and>
   map_option result_of (check_winner four_in_column_game 2 3) \<noteq>
     Some (Won Red [(5, 3), (4, 3), (3, 3), (2, 3)])"
proof -
  have a: "drops init_game [3, 3, 3, 3] =
     Inr (four_in_column_game, [(5, 3), (4, 3), (3, 3), (2, 3)])" by code_simp
  have b: "map_option result_of (check_winner four_in_column_game 2 3) =
     Some (Won Red [(2, 3), (3, 3), (4, 3), (5, 3)])" by code_simp
  show ?thesis unfolding a b by simp
qed

section \<open>Tic-Tac-Toe: the claim\<close>

text \<open>
  Claim C10. In a game in progress, a click on a cell of the 3 by 3 board that already holds
  a marker returns the state it was given (board, current player and game-over flag as
  before) and has no effect at all: no button text, no turn label, and neither of the
  dialogs and the highlight that a win or draw check would bring; the handler returns at
  its guard, before the check.
\<close>

theorem occupied_cell_click_is_noop:
  assumes "ttt_wf (ttt_board s)" and "row < SIZE" and "col < SIZE"
    and "\<not> ttt_game_over s" and "ttt_board s ! row ! col \<noteq> None"
  shows "ttt_on_click s row col = (s, [])"
  using assms by (simp add: ttt_on_click_def)

theorem occupied_cell_click_is_noop_witness:
  "ttt_wf (ttt_board ttt_sample) \<and> (1::nat) < SIZE \<and> \<not> ttt_game_over ttt_sample \<and>
   ttt_board ttt_sample ! 1 ! 1 = Some MarkX \<and>
   ttt_on_click ttt_sample 1 1 = (ttt_sample, [])"
proof -
  have w: "ttt_wf (ttt_board ttt_sample)" by code_simp
  have i: "(1::nat) < SIZE" by code_simp
  have g: "\<not> ttt_game_over ttt_sample" by code_simp
  have c: "ttt_board ttt_sample ! 1 ! 1 = Some MarkX" by code_simp
  then have n: "ttt_board ttt_sample ! 1 ! 1 \<noteq> None" by simp
  from occupied_cell_click_is_noop [OF w i i g n] w i g c show ?thesis by simp
qed

section \<open>Calculator: the claim\<close>

text \<open>
  Claim C9. The claim is that no sequence of button presses makes the button handler
  raise. The presses 1, /, 0, = divide by zero: the guard catches the division and the
  display shows \<open>Error\<close>, as claimed. The next press of an operator reads that display
  with \<open>float\<close>, and the \<open>ValueError\<close> leaves the handler. This holds for every float
  type in which \<open>"1"\<close> and \<open>"0"\<close> are numbers, the first divided by the second raises
  \<open>ZeroDivisionError\<close>, and \<open>"Error"\<close> is no number.
\<close>

theorem error_display_then_operator_raises:
  assumes "float_of_str ops ''1'' = Some one" and "float_of_str ops ''0'' = Some zero"
    and "float_div ops one zero = None" and "float_of_str ops ''Error'' = None"
  shows "map_sum id current_input (press_all ops (calc_init ops) ''1/0='') = Inr ''Error'' \<and>
         press_all ops (calc_init ops) ''1/0=+'' = Inl ValueError"
  using assms by (simp add: on_button_click_def calculate_def calc_init_def)

theorem error_display_then_operator_raises_witness:
  "float_of_str int_ops ''1'' = Some 1 \<and> float_of_str int_ops ''0'' = Some 0 \<and>
   float_div int_ops 1 0 = None \<and> float_of_str int_ops ''Error'' = None \<and>
   press_all int_ops (calc_init int_ops) ''1/0=+'' = Inl ValueError"
proof -
  have a: "float_of_str int_ops ''1'' = Some 1" by code_simp
  have b: "float_of_str int_ops ''0'' = Some 0" by code_simp
  have c: "float_div int_ops 1 0 = None" by code_simp
  have d: "float_of_str int_ops ''Error'' = None" by code_simp
  from error_display_then_operator_raises [OF a b c d] a b c d show ?thesis by simp
qed

end
